theory Spec2Isabelle
  imports Main "HOL-Library.Sublist"
begin

section \<open>Go library functions used by the process runner\<close>

text \<open>
  Go strings and byte slices are sequences of bytes, so they are values of type
  \<^typ>\<open>string\<close> (a list of 8-bit characters). \<open>strings.TrimSpace\<close> removes leading and
  trailing Unicode white space; it decodes UTF-8, forwards with
  \<open>utf8.DecodeRuneInString\<close> and backwards with \<open>utf8.DecodeLastRuneInString\<close>, and an
  invalid byte decodes to \<open>RuneError\<close> of width 1, which is not white space. Runes are
  natural numbers.
\<close>

definition RuneError :: nat where "RuneError = 0xFFFD"

fun DecodeRuneInString :: "string \<Rightarrow> nat \<times> nat" where
  "DecodeRuneInString [] = (RuneError, 0)"
| "DecodeRuneInString (c # cs) =
     (let s0 = (of_char c :: nat) in
      if s0 < 0x80 then (s0, 1)
      else if s0 < 0xC2 \<or> 0xF5 \<le> s0 then (RuneError, 1)
      else
        let sz = (if s0 < 0xE0 then 2 else if s0 < 0xF0 then 3 else (4::nat));
            lo = (if s0 = 0xE0 then 0xA0 else if s0 = 0xF0 then 0x90 else (0x80::nat));
            hi = (if s0 = 0xED then 0x9F else if s0 = 0xF4 then 0x8F else (0xBF::nat))
        in if length (c # cs) < sz then (RuneError, 1)
           else
             let s1 = (of_char (cs ! 0) :: nat) in
             if s1 < lo \<or> hi < s1 then (RuneError, 1)
             else if sz \<le> 2 then ((s0 mod 32) * 64 + s1 mod 64, 2)
             else
               let s2 = (of_char (cs ! 1) :: nat) in
               if s2 < 0x80 \<or> 0xBF < s2 then (RuneError, 1)
               else if sz \<le> 3 then ((s0 mod 16) * 4096 + (s1 mod 64) * 64 + s2 mod 64, 3)
               else
                 let s3 = (of_char (cs ! 2) :: nat) in
                 if s3 < 0x80 \<or> 0xBF < s3 then (RuneError, 1)
                 else ((s0 mod 8) * 262144 + (s1 mod 64) * 4096 + (s2 mod 64) * 64 + s3 mod 64, 4))"

lemma DecodeRuneInString_size: "s \<noteq> [] \<Longrightarrow> 1 \<le> snd (DecodeRuneInString s)"
  by (cases s) (simp_all add: Let_def)

definition IsSpace :: "nat \<Rightarrow> bool" where
  "IsSpace r =
     (if r \<le> 0xFF then r \<in> {0x09, 0x0A, 0x0B, 0x0C, 0x0D, 0x20, 0x85, 0xA0}
      else r = 0x1680 \<or> (0x2000 \<le> r \<and> r \<le> 0x200A) \<or> r = 0x2028 \<or> r = 0x2029
           \<or> r = 0x202F \<or> r = 0x205F \<or> r = 0x3000)"

definition RuneStart :: "char \<Rightarrow> bool" where
  "RuneStart b = (\<not> (0x80 \<le> (of_char b :: nat) \<and> (of_char b :: nat) < 0xC0))"

function TrimLeftFunc :: "string \<Rightarrow> (nat \<Rightarrow> bool) \<Rightarrow> string" where
  "TrimLeftFunc s f =
     (if s = [] then []
      else if f (fst (DecodeRuneInString s))
           then TrimLeftFunc (drop (snd (DecodeRuneInString s)) s) f
           else s)"
  by pat_completeness auto
termination
proof (relation "measure (\<lambda>(s, f). length s)")
  show "wf (measure (\<lambda>(s, f). length s))" by simp
next
  fix s :: string and f :: "nat \<Rightarrow> bool"
  assume "s \<noteq> []"
  then have "1 \<le> snd (DecodeRuneInString s)" and "0 < length s"
    using DecodeRuneInString_size [of s] by simp_all
  then show "((drop (snd (DecodeRuneInString s)) s, f), (s, f)) \<in> measure (\<lambda>(s, f). length s)"
    by simp
qed

text \<open>The backward search of DecodeLastRuneInString for the start of the last rune.\<close>

function runeStartBefore :: "string \<Rightarrow> int \<Rightarrow> int \<Rightarrow> int" where
  "runeStartBefore s start lim =
     (if start \<ge> lim \<and> start \<ge> 0 then
        (if RuneStart (s ! nat start) then start else runeStartBefore s (start - 1) lim)
      else start)"
  by pat_completeness auto
termination
  by (relation "measure (\<lambda>(s, start, lim). nat (start + 1))") auto

lemma runeStartBefore_le: "runeStartBefore s start lim \<le> start"
proof (induction s start lim rule: runeStartBefore.induct)
  case (1 s start lim)
  show ?case
  proof (cases "start \<ge> lim \<and> start \<ge> 0 \<and> \<not> RuneStart (s ! nat start)")
    case True
    then have "runeStartBefore s start lim = runeStartBefore s (start - 1) lim"
      by (subst runeStartBefore.simps) simp
    moreover have "runeStartBefore s (start - 1) lim \<le> start - 1"
      using True "1.IH" by simp
    ultimately show ?thesis by simp
  next
    case False
    then have "runeStartBefore s start lim = start"
      by (subst runeStartBefore.simps) auto
    then show ?thesis by simp
  qed
qed

definition DecodeLastRuneInString :: "string \<Rightarrow> nat \<times> nat" where
  "DecodeLastRuneInString s =
     (let n = int (length s) in
      if n = 0 then (RuneError, 0)
      else
        let r = (of_char (s ! nat (n - 1)) :: nat) in
        if r < 0x80 then (r, 1)
        else
          let lim = max (n - 4) 0;
              start0 = runeStartBefore s (n - 2) lim;
              start = (if start0 < 0 then 0 else start0);
              r = fst (DecodeRuneInString (drop (nat start) s));
              wid = snd (DecodeRuneInString (drop (nat start) s))
          in if start + int wid \<noteq> n then (RuneError, 1) else (r, wid))"

lemma DecodeLastRuneInString_size:
  assumes "s \<noteq> []"
  shows "1 \<le> snd (DecodeLastRuneInString s)"
proof -
  define start0 where "start0 = runeStartBefore s (int (length s) - 2) (max (int (length s) - 4) 0)"
  define start where "start = (if start0 < 0 then 0 else start0)"
  have "start0 \<le> int (length s) - 2"
    unfolding start0_def by (rule runeStartBefore_le)
  with assms have "nat start < length s"
    by (cases s) (auto simp: start_def)
  then have "drop (nat start) s \<noteq> []" by simp
  then have "1 \<le> snd (DecodeRuneInString (drop (nat start) s))"
    by (rule DecodeRuneInString_size)
  then show ?thesis
    using assms unfolding DecodeLastRuneInString_def Let_def start0_def [symmetric] start_def [symmetric]
    by simp
qed

function lastIndexFunc :: "string \<Rightarrow> (nat \<Rightarrow> bool) \<Rightarrow> bool \<Rightarrow> int" where
  "lastIndexFunc s f truth =
     (if s \<noteq> [] then
        (if f (fst (DecodeLastRuneInString s)) = truth
         then int (length s) - int (snd (DecodeLastRuneInString s))
         else lastIndexFunc (take (length s - snd (DecodeLastRuneInString s)) s) f truth)
      else -1)"
  by pat_completeness auto
termination
proof (relation "measure (\<lambda>(s, f, truth). length s)")
  show "wf (measure (\<lambda>(s, f, truth). length s))" by simp
next
  fix s :: string and f :: "nat \<Rightarrow> bool" and truth :: bool
  assume "s \<noteq> []"
  then have "1 \<le> snd (DecodeLastRuneInString s)" and "0 < length s"
    using DecodeLastRuneInString_size [of s] by simp_all
  then show "((take (length s - snd (DecodeLastRuneInString s)) s, f, truth), (s, f, truth))
      \<in> measure (\<lambda>(s, f, truth). length s)"
    by simp
qed

definition TrimRightFunc :: "string \<Rightarrow> (nat \<Rightarrow> bool) \<Rightarrow> string" where
  "TrimRightFunc s f =
     (let i = lastIndexFunc s f False;
          i' = (if i \<ge> 0 \<and> (of_char (s ! nat i) :: nat) \<ge> 0x80
                then i + int (snd (DecodeRuneInString (drop (nat i) s)))
                else i + 1)
      in take (nat i') s)"

definition TrimFunc :: "string \<Rightarrow> (nat \<Rightarrow> bool) \<Rightarrow> string" where
  "TrimFunc s f = TrimRightFunc (TrimLeftFunc s f) f"

definition TrimSpace :: "string \<Rightarrow> string" where
  "TrimSpace s = TrimFunc s IsSpace"

section \<open>The capture buffer (threadsafe\_writer.go)\<close>

text \<open>
  Go strings and byte slices are sequences of bytes, so they are values of type
  \<^typ>\<open>string\<close> (a list of 8-bit characters). Every method of \<open>threadSafeWriter\<close>
  holds the writer's lock for its whole body, so each method is one atomic transition
  of the record below.

  The delegate is an \<open>io.Writer\<close> owned by the caller. The writer only ever calls
  \<open>delegate.Write(p)\<close> and discards the result, so the delegate is modelled by its
  identity and every call is recorded as an event.
\<close>

type_synonym sink = nat

text \<open>
  The calls that the package makes on the world outside its own values, in the order in
  which it makes them: a write on the delegate, \<open>os.Open\<close> of the environment file, the
  call of \<open>cmd.Start\<close> with the arguments of the command, the receive from \<open>readyChan\<close>,
  the expiry of \<open>time.After\<close> with its seconds, the goroutine that calls \<open>cmd.Wait\<close>,
  \<open>syscall.Kill\<close> of a process group and \<open>Process.Kill\<close> of a process.
\<close>

datatype event =
    DelegateWrite sink string
  | OpenFile string
  | StartProcess "string list"
  | ReadyReceived
  | ReadyTimeout nat
  | BackgroundWait
  | KillGroup nat
  | KillProcess nat

record threadSafeWriter =
  buffer :: string
  lines :: "string list"
  delegate :: "sink option"

definition newThreadSafeWriter :: "sink option \<Rightarrow> threadSafeWriter" where
  "newThreadSafeWriter d = \<lparr>buffer = [], lines = [], delegate = d\<rparr>"

text \<open>
  \<open>Write\<close> returns the byte count of \<open>bytes.Buffer.Write\<close> (always the length of
  the chunk, with a nil error), the updated writer and the calls made on the delegate.
\<close>

definition Write :: "threadSafeWriter \<Rightarrow> string \<Rightarrow> nat \<times> threadSafeWriter \<times> event list" where
  "Write tsw p =
     (let tsw1 = tsw\<lparr>buffer := buffer tsw @ p\<rparr>;
          content = p;
          tsw2 = (if content \<noteq> [] then tsw1\<lparr>lines := lines tsw1 @ [content]\<rparr> else tsw1);
          evs = (case delegate tsw2 of None \<Rightarrow> [] | Some d \<Rightarrow> [DelegateWrite d p])
      in (length p, tsw2, evs))"

definition getOutput :: "threadSafeWriter \<Rightarrow> string" where
  "getOutput tsw = buffer tsw"

definition getLines :: "threadSafeWriter \<Rightarrow> string list" where
  "getLines tsw = take (length (lines tsw)) (lines tsw)"

text \<open>\<open>bytes.Contains\<close>: the needle occurs as a contiguous run of bytes.\<close>

fun bytes_Contains :: "string \<Rightarrow> string \<Rightarrow> bool" where
  "bytes_Contains [] sub = (sub = [])"
| "bytes_Contains (c # cs) sub = (prefix sub (c # cs) \<or> bytes_Contains cs sub)"

definition containsOutput :: "threadSafeWriter \<Rightarrow> string \<Rightarrow> bool" where
  "containsOutput tsw text = bytes_Contains (buffer tsw) text"

text \<open>A sequence of appends, in order, with the delegate calls they make.\<close>

fun Writes :: "threadSafeWriter \<Rightarrow> string list \<Rightarrow> threadSafeWriter \<times> event list" where
  "Writes tsw [] = (tsw, [])"
| "Writes tsw (p # ps) =
     (case Write tsw p of (n, tsw1, evs) \<Rightarrow>
        (case Writes tsw1 ps of (tsw2, evs2) \<Rightarrow> (tsw2, evs @ evs2)))"

text \<open>
  \<open>waitForOutput\<close> polls every 10 ms until the deadline. The pump goroutines append
  between two polls, so the loop is run on the chunks that arrive before each of the
  polls made before the deadline. A timeout that is not positive makes no poll at all.
\<close>

fun pollOutput :: "threadSafeWriter \<Rightarrow> string \<Rightarrow> string list list \<Rightarrow> bool" where
  "pollOutput tsw text [] = False"
| "pollOutput tsw text (arrived # later) =
     (let tsw1 = fst (Writes tsw arrived) in
      if containsOutput tsw1 text then True else pollOutput tsw1 text later)"

definition waitForOutput :: "threadSafeWriter \<Rightarrow> string \<Rightarrow> int \<Rightarrow> string list list \<Rightarrow> bool" where
  "waitForOutput tsw text timeout polls =
     (if timeout \<le> 0 then False else pollOutput tsw text polls)"

definition reset :: "threadSafeWriter \<Rightarrow> threadSafeWriter" where
  "reset tsw = tsw\<lparr>buffer := [], lines := take 0 (lines tsw)\<rparr>"

section \<open>String helpers of the environment-file parser\<close>

definition HasPrefix :: "string \<Rightarrow> string \<Rightarrow> bool" where
  "HasPrefix s pre = (length s \<ge> length pre \<and> take (length pre) s = pre)"

definition HasSuffix :: "string \<Rightarrow> string \<Rightarrow> bool" where
  "HasSuffix s suf = (length s \<ge> length suf \<and> drop (length s - length suf) s = suf)"

text \<open>
  \<open>strings.SplitN(s, sep, n)\<close> for a separator of one byte: at most \<open>n\<close> pieces, the
  last one the unsplit remainder; \<open>n = 0\<close> gives no piece.
\<close>

fun SplitN :: "string \<Rightarrow> char \<Rightarrow> nat \<Rightarrow> string list" where
  "SplitN s sep 0 = []"
| "SplitN s sep (Suc 0) = [s]"
| "SplitN s sep (Suc (Suc n)) =
     (if sep \<in> set s
      then takeWhile (\<lambda>c. c \<noteq> sep) s # SplitN (tl (dropWhile (\<lambda>c. c \<noteq> sep) s)) sep (Suc n)
      else [s])"

text \<open>
  A run-time panic ends the call: the slice expression \<open>s[lo:hi]\<close> panics unless
  \<open>0 \<le> lo \<le> hi \<le> len(s)\<close>, and an assignment to an entry of a nil map panics.
\<close>

datatype panic = SliceBoundsOutOfRange int int | AssignmentToNilMap

datatype 'a outcome = Returned 'a | Panicked panic

definition slice :: "string \<Rightarrow> int \<Rightarrow> int \<Rightarrow> panic + string" where
  "slice s lo hi =
     (if 0 \<le> lo \<and> lo \<le> hi \<and> hi \<le> int (length s)
      then Inr (take (nat hi - nat lo) (drop (nat lo) s))
      else Inl (SliceBoundsOutOfRange lo hi))"

definition dquote :: string where "dquote = [CHR 0x22]"

definition squote :: string where "squote = [CHR 0x27]"

text \<open>
  \<open>bufio.ScanLines\<close>: the tokens of a text are its lines without the line end, a
  carriage return before the line end dropped; a last line without line end is a token
  when it is not empty.
\<close>

definition dropCR :: "string \<Rightarrow> string" where
  "dropCR d = (if d \<noteq> [] \<and> last d = CHR 0x0D then butlast d else d)"

fun scanFrom :: "string \<Rightarrow> string \<Rightarrow> string list" where
  "scanFrom line [] = (if line = [] then [] else [dropCR line])"
| "scanFrom line (c # cs) =
     (if c = CHR 0x0A then dropCR line # scanFrom [] cs else scanFrom (line @ [c]) cs)"

definition ScanLines :: "string \<Rightarrow> string list" where
  "ScanLines data = scanFrom [] data"

section \<open>The process runner\<close>

datatype go_error =
    NoFileSpecified
  | FailedToLoadEnvFile go_error
  | OSError string

text \<open>
  \<open>exec.Cmd\<close>, with the fields that \<open>Run\<close> sets; \<open>cmd_Process\<close> is the process
  identifier once \<open>Start\<close> has succeeded.
\<close>

record Cmd =
  cmd_Args :: "string list"
  cmd_Env :: "string list"
  cmd_Dir :: string
  cmd_Setpgid :: bool
  cmd_Process :: "nat option"

text \<open>
  A Go map is a partial function from keys to values, and a nil map is \<open>None\<close>; a nil
  pointer, writer or function is \<open>None\<close> as well. The mutex \<open>mu\<close> is held by each
  method for its whole body, so each method is one transition of the record.
\<close>

record Process =
  File :: string
  Env :: "(string \<rightharpoonup> string) option"
  EnvFile :: string
  LogStream :: "sink option"
  WaitingFor :: "(string \<Rightarrow> bool) option"
  cmd :: "Cmd option"
  running :: bool
  safeWriter :: "threadSafeWriter option"

definition GetOutput :: "Process \<Rightarrow> string" where
  "GetOutput p = (case safeWriter p of Some tsw \<Rightarrow> getOutput tsw | None \<Rightarrow> [])"

text \<open>The nil slice that \<open>GetLines\<close> returns without a writer is the sequence of length 0.\<close>

definition GetLines :: "Process \<Rightarrow> string list" where
  "GetLines p = (case safeWriter p of Some tsw \<Rightarrow> getLines tsw | None \<Rightarrow> [])"

definition ContainsOutput :: "Process \<Rightarrow> string \<Rightarrow> bool" where
  "ContainsOutput p text = (case safeWriter p of Some tsw \<Rightarrow> containsOutput tsw text | None \<Rightarrow> False)"

definition WaitForOutput :: "Process \<Rightarrow> string \<Rightarrow> int \<Rightarrow> string list list \<Rightarrow> bool" where
  "WaitForOutput p text timeout polls =
     (case safeWriter p of Some tsw \<Rightarrow> waitForOutput tsw text timeout polls | None \<Rightarrow> False)"

definition ResetOutput :: "Process \<Rightarrow> Process" where
  "ResetOutput p =
     (case safeWriter p of Some tsw \<Rightarrow> p\<lparr>safeWriter := Some (reset tsw)\<rparr> | None \<Rightarrow> p)"

text \<open>
  Reading \<open>p.Env[key]\<close>: the value if the key exists; a nil map has no key.
\<close>

definition lookupEnv :: "Process \<Rightarrow> string \<Rightarrow> string option" where
  "lookupEnv p key = (case Env p of None \<Rightarrow> None | Some env \<Rightarrow> env key)"

subsection \<open>loadEnvFile\<close>

text \<open>
  The part of the loop body that computes the key and the value of one scanned line:
  \<open>None\<close> is a line that the loop skips with \<open>continue\<close>.
\<close>

definition parseLine :: "string \<Rightarrow> panic + (string \<times> string) option" where
  "parseLine text =
     (let line = TrimSpace text in
      if line = [] \<or> HasPrefix line ''#'' then Inr None
      else
        let parts = SplitN line CHR ''='' 2 in
        if length parts \<noteq> 2 then Inr None
        else
          let key = TrimSpace (parts ! 0);
              val = TrimSpace (parts ! 1)
          in if (HasPrefix val dquote \<and> HasSuffix val dquote)
                \<or> (HasPrefix val squote \<and> HasSuffix val squote)
             then (case slice val 1 (int (length val) - 1) of
                     Inl pn \<Rightarrow> Inl pn
                   | Inr val1 \<Rightarrow> Inr (Some (key, val1)))
             else Inr (Some (key, val)))"

text \<open>The end of the loop body: the entry is set only if the key does not exist yet.\<close>

definition setIfAbsent ::
  "(string \<rightharpoonup> string) option \<Rightarrow> string \<Rightarrow> string \<Rightarrow> panic + (string \<rightharpoonup> string) option" where
  "setIfAbsent menv key val =
     (case menv of
        None \<Rightarrow> Inl AssignmentToNilMap
      | Some env \<Rightarrow> (if env key = None then Inr (Some (env(key \<mapsto> val))) else Inr (Some env)))"

definition loadEnvLine ::
  "(string \<rightharpoonup> string) option \<Rightarrow> string \<Rightarrow> panic + (string \<rightharpoonup> string) option" where
  "loadEnvLine menv text =
     (case parseLine text of
        Inl pn \<Rightarrow> Inl pn
      | Inr None \<Rightarrow> Inr menv
      | Inr (Some (key, val)) \<Rightarrow> setIfAbsent menv key val)"

text \<open>
  The scanner loop. The map is updated in place, so a panic leaves the entries of the
  lines before it in the map.
\<close>

fun loadEnvLines ::
  "(string \<rightharpoonup> string) option \<Rightarrow> string list \<Rightarrow> (string \<rightharpoonup> string) option \<times> panic option" where
  "loadEnvLines menv [] = (menv, None)"
| "loadEnvLines menv (text # rest) =
     (case loadEnvLine menv text of
        Inl pn \<Rightarrow> (menv, Some pn)
      | Inr menv1 \<Rightarrow> loadEnvLines menv1 rest)"

text \<open>
  What the file system gives for the path \<open>EnvFile\<close>: \<open>os.Open\<close> fails, or the file opens
  and the scanner delivers its tokens and then reports \<open>scanner.Err()\<close>.
\<close>

datatype env_file = OpenFails go_error | Opens "string list" "go_error option"

definition loadEnvFile :: "Process \<Rightarrow> env_file \<Rightarrow> go_error option outcome \<times> Process \<times> event list" where
  "loadEnvFile p f =
     (case f of
        OpenFails err \<Rightarrow> (Returned (Some err), p, [OpenFile (EnvFile p)])
      | Opens tokens scanErr \<Rightarrow>
          (case loadEnvLines (Env p) tokens of
             (menv, Some pn) \<Rightarrow> (Panicked pn, p\<lparr>Env := menv\<rparr>, [OpenFile (EnvFile p)])
           | (menv, None) \<Rightarrow> (Returned scanErr, p\<lparr>Env := menv\<rparr>, [OpenFile (EnvFile p)])))"

subsection \<open>Run\<close>

text \<open>
  What the two pump goroutines do while \<open>Run\<close> is still executing. \<open>handleLine\<close> first
  appends the scanned line with its newline restored and then, in a second critical
  section, evaluates the readiness predicate on the text captured so far; the steps of
  the two goroutines interleave.
\<close>

datatype pump_step = PumpWrite string | PumpCheck

text \<open>
  Everything \<open>Run\<close> obtains from outside the \<open>Process\<close> value: the environment file,
  \<open>os.Environ()\<close>, the order in which \<open>range p.Env\<close> visits the keys, \<open>os.Getwd()\<close>,
  the errors of the two pipe creations, the outcome of \<open>cmd.Start()\<close> (an error or the
  process identifier), the pump steps taken before \<open>Run\<close> reaches its readiness wait and
  the pump steps taken during the wait before the timer fires.
\<close>

record World =
  envFile :: env_file
  environ :: "string list"
  rangeOrder :: "string list"
  getwd :: "string option"
  stdoutPipe :: "go_error option"
  stderrPipe :: "go_error option"
  startResult :: "go_error + nat"
  earlySteps :: "pump_step list"
  lateSteps :: "pump_step list"

definition readinessTimeout :: nat where
  "readinessTimeout = 30"

text \<open>
  One pump step on the writer, the state of the one-slot channel \<open>readyChan\<close> (whether
  it holds a value) and the events so far. A send on the full channel is dropped.
\<close>

fun pumpStep ::
  "(string \<Rightarrow> bool) option \<Rightarrow> pump_step \<Rightarrow> threadSafeWriter \<times> bool \<times> event list
     \<Rightarrow> threadSafeWriter \<times> bool \<times> event list" where
  "pumpStep pred (PumpWrite text) (tsw, ready, evs) =
     (case Write tsw (text @ [CHR 0x0A]) of (n, tsw1, ev) \<Rightarrow> (tsw1, ready, evs @ ev))"
| "pumpStep pred PumpCheck (tsw, ready, evs) =
     (case pred of
        None \<Rightarrow> (tsw, ready, evs)
      | Some waitingFor \<Rightarrow> (if waitingFor (getOutput tsw) then (tsw, True, evs) else (tsw, ready, evs)))"

fun pumpSteps ::
  "(string \<Rightarrow> bool) option \<Rightarrow> pump_step list \<Rightarrow> threadSafeWriter \<times> bool \<times> event list
     \<Rightarrow> threadSafeWriter \<times> bool \<times> event list" where
  "pumpSteps pred [] st = st"
| "pumpSteps pred (step # steps) st = pumpSteps pred steps (pumpStep pred step st)"

text \<open>
  The \<open>select\<close> of \<open>Run\<close>: it receives from \<open>readyChan\<close> as soon as the channel holds a
  value; if the pump steps that happen before the timer fires are used up first, the
  timeout branch is taken.
\<close>

fun awaitReady ::
  "(string \<Rightarrow> bool) option \<Rightarrow> pump_step list \<Rightarrow> threadSafeWriter \<times> bool \<times> event list
     \<Rightarrow> threadSafeWriter \<times> event list" where
  "awaitReady pred [] (tsw, ready, evs) =
     (if ready then (tsw, evs @ [ReadyReceived]) else (tsw, evs @ [ReadyTimeout readinessTimeout]))"
| "awaitReady pred (step # steps) (tsw, ready, evs) =
     (if ready then (tsw, evs @ [ReadyReceived])
      else awaitReady pred steps (pumpStep pred step (tsw, ready, evs)))"

definition environEntries :: "(string \<rightharpoonup> string) option \<Rightarrow> string list \<Rightarrow> string list" where
  "environEntries menv order =
     (case menv of
        None \<Rightarrow> []
      | Some env \<Rightarrow>
          concat (map (\<lambda>k. case env k of None \<Rightarrow> [] | Some v \<Rightarrow> [k @ ''='' @ v]) order))"

text \<open>Lines 145 to 200 of \<open>Run\<close>: the process has started and \<open>running\<close> is set.\<close>

definition superviseStarted :: "Process \<Rightarrow> World \<Rightarrow> event list \<Rightarrow> go_error option outcome \<times> Process \<times> event list" where
  "superviseStarted p w evs =
     (case safeWriter p of
        None \<Rightarrow>
          (case WaitingFor p of
             None \<Rightarrow> (Returned None, p, evs @ [BackgroundWait])
           | Some pred \<Rightarrow> (Returned None, p, evs @ [ReadyTimeout readinessTimeout, BackgroundWait]))
      | Some tsw \<Rightarrow>
          (case pumpSteps (WaitingFor p) (earlySteps w) (tsw, False, evs) of (tsw1, ready, evs1) \<Rightarrow>
             (case WaitingFor p of
                None \<Rightarrow> (Returned None, p\<lparr>safeWriter := Some tsw1\<rparr>, evs1 @ [BackgroundWait])
              | Some pred \<Rightarrow>
                  (case Write tsw1 ''[runner] Waiting for the readiness.\<newline>'' of (n, tsw2, ev) \<Rightarrow>
                     (case awaitReady (WaitingFor p) (lateSteps w) (tsw2, ready, evs1 @ ev) of (tsw3, evs3) \<Rightarrow>
                        (Returned None, p\<lparr>safeWriter := Some tsw3\<rparr>, evs3 @ [BackgroundWait]))))))"

text \<open>Lines 109 to 126 of \<open>Run\<close>: the command, not yet started.\<close>

definition newCommand :: "Process \<Rightarrow> World \<Rightarrow> Cmd" where
  "newCommand p w =
     \<lparr>cmd_Args = [''go'', ''run'', File p],
      cmd_Env = environ w @ environEntries (Env p) (rangeOrder w),
      cmd_Dir = (case getwd w of Some wd \<Rightarrow> wd | None \<Rightarrow> []),
      cmd_Setpgid = True,
      cmd_Process = None\<rparr>"

text \<open>Lines 106 to 143 of \<open>Run\<close>: the writer, the command, the pipes and the start.\<close>

definition startCommand :: "Process \<Rightarrow> World \<Rightarrow> event list \<Rightarrow> go_error option outcome \<times> Process \<times> event list" where
  "startCommand p w evs =
     (let c = newCommand p w;
          p1 = p\<lparr>safeWriter := Some (newThreadSafeWriter (LogStream p)), cmd := Some c\<rparr>
      in case stdoutPipe w of
           Some err \<Rightarrow> (Returned (Some err), p1, evs)
         | None \<Rightarrow>
             (case stderrPipe w of
                Some err \<Rightarrow> (Returned (Some err), p1, evs)
              | None \<Rightarrow>
                  (case startResult w of
                     Inl err \<Rightarrow> (Returned (Some err), p1, evs @ [StartProcess (cmd_Args c)])
                   | Inr pid \<Rightarrow>
                       superviseStarted
                         (p1\<lparr>cmd := Some (c\<lparr>cmd_Process := Some pid\<rparr>), running := True\<rparr>)
                         w (evs @ [StartProcess (cmd_Args c)]))))"

text \<open>Lines 94 to 97 of \<open>Run\<close>: a nil \<open>Env\<close> is replaced by an empty map.\<close>

definition initEnv :: "Process \<Rightarrow> Process" where
  "initEnv p = (if Env p = None then p\<lparr>Env := Some Map.empty\<rparr> else p)"

definition Run :: "Process \<Rightarrow> World \<Rightarrow> go_error option outcome \<times> Process \<times> event list" where
  "Run p w =
     (if running p then (Returned None, p, [])
      else if File p = [] then (Returned (Some NoFileSpecified), p, [])
      else
        let p1 = initEnv p in
        if EnvFile p1 \<noteq> [] then
          (case loadEnvFile p1 (envFile w) of
             (Panicked pn, p2, evs) \<Rightarrow> (Panicked pn, p2, evs)
           | (Returned (Some err), p2, evs) \<Rightarrow> (Returned (Some (FailedToLoadEnvFile err)), p2, evs)
           | (Returned None, p2, evs) \<Rightarrow> startCommand p2 w evs)
        else startCommand p1 w [])"

subsection \<open>Stop\<close>

text \<open>
  \<open>Stop\<close> asks the system for the process group of the child: \<open>pgid\<close> is the group, or
  \<open>None\<close> when \<open>syscall.Getpgid\<close> fails.
\<close>

definition Stop :: "Process \<Rightarrow> nat option \<Rightarrow> Process \<times> event list" where
  "Stop p pgid =
     (if \<not> running p \<or> cmd p = None then (p, [])
      else
        (case cmd p of
           None \<Rightarrow> (p, [])
         | Some c \<Rightarrow>
             (case cmd_Process c of
                None \<Rightarrow> (p\<lparr>running := False\<rparr>, [])
              | Some pid \<Rightarrow>
                  (case pgid of
                     Some g \<Rightarrow> (p\<lparr>running := False\<rparr>, [KillGroup g])
                   | None \<Rightarrow> (p\<lparr>running := False\<rparr>, [KillProcess pid])))))"

section \<open>The environment-file syntax as the specification words it\<close>

text \<open>
  The specification describes the parser as follows: blank lines and lines starting with
  \<open>#\<close> are ignored; the other lines are split on the first \<open>=\<close>, lines without one
  being skipped; surrounding white space is trimmed from key and value; a value fully
  wrapped in matching single or double quotes has the quotes stripped. A line of white
  space only has no \<open>=\<close> and is skipped either way, so the blank line is the empty one.
  Among several lines with one key the first one counts, as it does for a key that is
  already in the map.
\<close>

definition spec_unquote :: "string \<Rightarrow> string" where
  "spec_unquote v =
     (if 2 \<le> length v \<and> ((hd v = CHR 0x22 \<and> last v = CHR 0x22) \<or> (hd v = CHR 0x27 \<and> last v = CHR 0x27))
      then butlast (tl v) else v)"

definition spec_parse_line :: "string \<Rightarrow> (string \<times> string) option" where
  "spec_parse_line l =
     (if l = [] \<or> hd l = CHR ''#'' then None
      else if CHR ''='' \<notin> set l then None
      else Some (TrimSpace (takeWhile (\<lambda>c. c \<noteq> CHR ''='') l),
                 spec_unquote (TrimSpace (tl (dropWhile (\<lambda>c. c \<noteq> CHR ''='') l)))))"

definition spec_parse :: "string list \<Rightarrow> (string \<rightharpoonup> string)" where
  "spec_parse ls = map_of (List.map_filter spec_parse_line ls)"

text \<open>The condition under which the loop body of \<open>loadEnvFile\<close> slices the value.\<close>

definition quoted :: "string \<Rightarrow> bool" where
  "quoted v = ((HasPrefix v dquote \<and> HasSuffix v dquote) \<or> (HasPrefix v squote \<and> HasSuffix v squote))"

text \<open>
  The key/value pairs that the loop body of \<open>loadEnvFile\<close> computes for the scanned
  lines, in the order of the file.
\<close>

definition fileEntries :: "string list \<Rightarrow> (string \<times> string) list" where
  "fileEntries tokens =
     List.map_filter (\<lambda>text. case parseLine text of Inr (Some kv) \<Rightarrow> Some kv | _ \<Rightarrow> None) tokens"

text \<open>
  The outcome of the environment step of \<open>Run\<close> (lines 94 to 104) for a call that
  reaches it.
\<close>

definition envStep :: "Process \<Rightarrow> World \<Rightarrow> go_error option outcome" where
  "envStep p w =
     (if EnvFile p = [] then Returned None else fst (loadEnvFile (initEnv p) (envFile w)))"

section \<open>Concrete processes and worlds\<close>

text \<open>
  The configuration of the repository's test with an environment file: an explicit
  \<open>PORT\<close> and a file that sets \<open>PORT\<close> too.
\<close>

definition testProcess :: Process where
  "testProcess =
     \<lparr>File = ''test/cmd/rest_api/main.go'', Env = Some [''PORT'' \<mapsto> ''1010''],
      EnvFile = ''test/data/.env.test'', LogStream = Some 1, WaitingFor = None,
      cmd = None, running = False, safeWriter = None\<rparr>"

definition testWorld :: World where
  "testWorld =
     \<lparr>envFile = Opens (ScanLines ''PORT=9999\<newline>HOST = localhost\<newline>'') None,
      environ = [''PATH=/usr/bin''], rangeOrder = [''HOST'', ''PORT''], getwd = Some ''/work'',
      stdoutPipe = None, stderrPipe = None, startResult = Inr 4242,
      earlySteps = [], lateSteps = [PumpWrite ''listening'', PumpCheck]\<rparr>"

text \<open>
  An environment file with a comment, an empty line, a key that the explicit mapping of
  the test has, a quoted value that contains \<open>=\<close>, a value in single quotes, a line
  without \<open>=\<close>, a repeated key and an empty value.
\<close>

definition testFile :: env_file where
  "testFile =
     Opens [''# note = 1'', [], ''PORT=9999'', '' HOST = '' @ dquote @ ''local=host'' @ dquote @ '' '',
            ''NAME='' @ squote @ ''x'' @ squote, ''no separator'', ''HOST=other'', ''EMPTY='']
       None"

text \<open>
  An environment file whose only line is \<open>KEY=\<close> followed by one double quote: the value
  is that one byte.
\<close>

definition loneQuoteFile :: env_file where
  "loneQuoteFile = Opens (ScanLines (''KEY='' @ dquote @ [CHR 0x0A])) None"

section \<open>Properties of the capture buffer\<close>

lemma Write_buffer: "buffer (fst (snd (Write tsw p))) = buffer tsw @ p"
  by (simp add: Write_def Let_def)

lemma Write_lines:
  "lines (fst (snd (Write tsw p))) = (if p = [] then lines tsw else lines tsw @ [p])"
  by (simp add: Write_def Let_def)

lemma Write_delegate: "delegate (fst (snd (Write tsw p))) = delegate tsw"
  by (simp add: Write_def Let_def)

lemma Writes_buffer: "buffer (fst (Writes tsw ps)) = buffer tsw @ concat ps"
proof (induction ps arbitrary: tsw)
  case Nil
  show ?case by simp
next
  case (Cons p ps)
  obtain n tsw1 evs where w: "Write tsw p = (n, tsw1, evs)"
    by (cases "Write tsw p") auto
  have b: "buffer tsw1 = buffer tsw @ p"
    using Write_buffer [of tsw p] w by simp
  obtain tsw2 evs2 where ws: "Writes tsw1 ps = (tsw2, evs2)"
    by (cases "Writes tsw1 ps") auto
  have "buffer tsw2 = buffer tsw1 @ concat ps"
    using Cons.IH [of tsw1] ws by simp
  with w ws b show ?case by simp
qed

lemma Writes_lines: "lines (fst (Writes tsw ps)) = lines tsw @ filter (\<lambda>p. p \<noteq> []) ps"
proof (induction ps arbitrary: tsw)
  case Nil
  show ?case by simp
next
  case (Cons p ps)
  obtain n tsw1 evs where w: "Write tsw p = (n, tsw1, evs)"
    by (cases "Write tsw p") auto
  have l: "lines tsw1 = (if p = [] then lines tsw else lines tsw @ [p])"
    using Write_lines [of tsw p] w by simp
  obtain tsw2 evs2 where ws: "Writes tsw1 ps = (tsw2, evs2)"
    by (cases "Writes tsw1 ps") auto
  have "lines tsw2 = lines tsw1 @ filter (\<lambda>p. p \<noteq> []) ps"
    using Cons.IH [of tsw1] ws by simp
  with w ws l show ?case by simp
qed

lemma Writes_delegate: "delegate (fst (Writes tsw ps)) = delegate tsw"
proof (induction ps arbitrary: tsw)
  case Nil
  show ?case by simp
next
  case (Cons p ps)
  obtain n tsw1 evs where w: "Write tsw p = (n, tsw1, evs)"
    by (cases "Write tsw p") auto
  have d: "delegate tsw1 = delegate tsw"
    using Write_delegate [of tsw p] w by simp
  obtain tsw2 evs2 where ws: "Writes tsw1 ps = (tsw2, evs2)"
    by (cases "Writes tsw1 ps") auto
  have "delegate tsw2 = delegate tsw1"
    using Cons.IH [of tsw1] ws by simp
  with w ws d show ?case by simp
qed


section \<open>Properties of the environment-file parser\<close>

lemma slice_inner: "2 \<le> length v \<Longrightarrow> slice v 1 (int (length v) - 1) = Inr (butlast (tl v))"
  by (simp add: slice_def butlast_conv_take drop_Suc nat_diff_distrib)

lemma HasPrefix_single: "HasPrefix s [c] = (s \<noteq> [] \<and> hd s = c)"
  by (cases s) (auto simp: HasPrefix_def)

lemma HasSuffix_single: "HasSuffix s [c] = (s \<noteq> [] \<and> last s = c)"
  by (cases s rule: rev_cases) (auto simp: HasSuffix_def)

lemma SplitN_2:
  "SplitN s c 2 =
     (if c \<in> set s then [takeWhile (\<lambda>x. x \<noteq> c) s, tl (dropWhile (\<lambda>x. x \<noteq> c) s)] else [s])"
  by (simp add: numeral_2_eq_2)

lemma quoted_iff:
  "quoted v = (v \<noteq> [] \<and> ((hd v = CHR 0x22 \<and> last v = CHR 0x22) \<or> (hd v = CHR 0x27 \<and> last v = CHR 0x27)))"
  by (auto simp: quoted_def dquote_def squote_def HasPrefix_single HasSuffix_single)

lemma slice_quoted:
  assumes "quoted v"
  shows "slice v 1 (int (length v) - 1) =
     (if 2 \<le> length v then Inr (butlast (tl v)) else Inl (SliceBoundsOutOfRange 1 0))"
proof (cases "2 \<le> length v")
  case True
  then show ?thesis by (simp add: slice_inner)
next
  case False
  from assms have "v \<noteq> []" by (simp add: quoted_iff)
  then have "0 < length v" by simp
  with False have "length v = 1" by linarith
  with False show ?thesis by (simp add: slice_def)
qed

text \<open>
  The loop body with the library calls on one-byte strings resolved: what it returns
  for a line depends on the trimmed line, on its first \<open>=\<close> and on the trimmed value.
\<close>

lemma parseLine_unfold:
  "parseLine text =
     (let line = TrimSpace text in
      if line = [] \<or> hd line = CHR ''#'' \<or> CHR ''='' \<notin> set line then Inr None
      else
        let key = TrimSpace (takeWhile (\<lambda>c. c \<noteq> CHR ''='') line);
            val = TrimSpace (tl (dropWhile (\<lambda>c. c \<noteq> CHR ''='') line))
        in if quoted val
           then (if 2 \<le> length val then Inr (Some (key, butlast (tl val)))
                 else Inl (SliceBoundsOutOfRange 1 0))
           else Inr (Some (key, val)))"
  unfolding parseLine_def Let_def quoted_def [symmetric] SplitN_2
  by (simp add: HasPrefix_single slice_quoted)

text \<open>
  On a line for which it does not panic, the loop body computes what the
  specification's syntax gives for the trimmed line.
\<close>

lemma parseLine_spec:
  assumes "parseLine text = Inr r"
  shows "r = spec_parse_line (TrimSpace text)"
  using assms unfolding parseLine_unfold spec_parse_line_def spec_unquote_def Let_def
  by (auto simp: quoted_iff split: if_splits)

text \<open>
  The loop body panics exactly on a line that is not skipped and whose trimmed value is
  one quote character, and the panic is that of the slice \<open>value[1:0]\<close>.
\<close>

lemma parseLine_panic:
  "(parseLine text = Inl pn) =
     (pn = SliceBoundsOutOfRange 1 0 \<and> TrimSpace text \<noteq> [] \<and> hd (TrimSpace text) \<noteq> CHR ''#''
      \<and> CHR ''='' \<in> set (TrimSpace text)
      \<and> TrimSpace (tl (dropWhile (\<lambda>c. c \<noteq> CHR ''='') (TrimSpace text))) \<in> {dquote, squote})"
proof -
  have lone: "(quoted v \<and> \<not> 2 \<le> length v) = (v \<in> {dquote, squote})" for v
  proof (cases v)
    case Nil
    then show ?thesis by (simp add: quoted_iff dquote_def squote_def)
  next
    case (Cons c cs)
    then show ?thesis by (cases cs) (auto simp: quoted_iff dquote_def squote_def)
  qed
  show ?thesis
    unfolding parseLine_unfold Let_def
    using lone [of "TrimSpace (tl (dropWhile (\<lambda>c. c \<noteq> CHR ''='') (TrimSpace text)))"]
    by (auto split: if_splits)
qed

lemma map_add_first:
  "map_of ((k, v) # es) ++ env = map_of es ++ (if env k = None then env(k \<mapsto> v) else env)"
  by (rule ext) (auto simp: map_add_def split: option.splits)

lemma fileEntries_Cons:
  "fileEntries (t # ts) =
     (case parseLine t of Inr (Some kv) \<Rightarrow> kv # fileEntries ts | _ \<Rightarrow> fileEntries ts)"
  by (simp add: fileEntries_def List.map_filter_simps split: sum.splits option.splits)

text \<open>
  A loop that ends without panic leaves the map it started with, extended by the
  entries of the file for the keys that the map did not have, the first entry of a key
  counting.
\<close>

lemma loadEnvLines_entries:
  "loadEnvLines (Some env) ts = (menv, None) \<Longrightarrow> menv = Some (map_of (fileEntries ts) ++ env)"
proof (induction ts arbitrary: env)
  case Nil
  then show ?case by (simp add: fileEntries_def List.map_filter_simps)
next
  case (Cons t ts)
  show ?case
  proof (cases "parseLine t")
    case (Inl pn)
    with Cons.prems show ?thesis by (simp add: loadEnvLine_def)
  next
    case (Inr r)
    show ?thesis
    proof (cases r)
      case None
      with Inr Cons.prems have "loadEnvLines (Some env) ts = (menv, None)"
        by (simp add: loadEnvLine_def)
      then have "menv = Some (map_of (fileEntries ts) ++ env)" by (rule Cons.IH)
      with Inr None show ?thesis by (simp add: fileEntries_Cons)
    next
      case (Some kv)
      obtain k v where kv: "kv = (k, v)" by (cases kv)
      let ?env1 = "if env k = None then env(k \<mapsto> v) else env"
      from Inr Some kv Cons.prems have "loadEnvLines (Some ?env1) ts = (menv, None)"
        by (cases "env k") (simp_all add: loadEnvLine_def setIfAbsent_def)
      then have "menv = Some (map_of (fileEntries ts) ++ ?env1)" by (rule Cons.IH)
      with Inr Some kv show ?thesis
        by (simp only: fileEntries_Cons map_add_first sum.case option.case)
    qed
  qed
qed

text \<open>However the loop ends, the entries the map had are kept.\<close>

lemma loadEnvLines_keeps:
  "loadEnvLines (Some env) ts = (menv, r) \<Longrightarrow>
     \<exists>env1. menv = Some env1 \<and> (\<forall>k v. env k = Some v \<longrightarrow> env1 k = Some v)"
proof (induction ts arbitrary: env)
  case Nil
  then show ?case by auto
next
  case (Cons t ts)
  show ?case
  proof (cases "loadEnvLine (Some env) t")
    case (Inl pn)
    with Cons.prems show ?thesis by auto
  next
    case (Inr menv1)
    then obtain env1 where e1: "menv1 = Some env1" and keep: "\<forall>k v. env k = Some v \<longrightarrow> env1 k = Some v"
      by (auto simp: loadEnvLine_def setIfAbsent_def split: sum.splits option.splits if_splits)
    from Inr e1 Cons.prems have "loadEnvLines (Some env1) ts = (menv, r)" by simp
    from Cons.IH [OF this] obtain env2 where "menv = Some env2"
      and "\<forall>k v. env1 k = Some v \<longrightarrow> env2 k = Some v" by blast
    with keep show ?thesis by blast
  qed
qed

section \<open>Properties of the process runner\<close>

lemma superviseStarted_result: "fst (superviseStarted p w evs) = Returned None"
  by (simp add: superviseStarted_def split: option.splits prod.splits)

lemma superviseStarted_Env: "Env (fst (snd (superviseStarted p w evs))) = Env p"
  by (simp add: superviseStarted_def split: option.splits prod.splits)

lemma superviseStarted_running: "running (fst (snd (superviseStarted p w evs))) = running p"
  by (simp add: superviseStarted_def split: option.splits prod.splits)

lemma startCommand_result:
  "fst (startCommand p w evs) =
     (case stdoutPipe w of
        Some err \<Rightarrow> Returned (Some err)
      | None \<Rightarrow>
          (case stderrPipe w of
             Some err \<Rightarrow> Returned (Some err)
           | None \<Rightarrow> (case startResult w of Inl err \<Rightarrow> Returned (Some err) | Inr pid \<Rightarrow> Returned None)))"
  by (simp add: startCommand_def Let_def superviseStarted_result split: option.splits sum.splits)

lemma startCommand_Env: "Env (fst (snd (startCommand p w evs))) = Env p"
  by (simp add: startCommand_def Let_def superviseStarted_Env split: option.splits sum.splits)

lemma startCommand_running:
  "running (fst (snd (startCommand p w evs))) =
     (if stdoutPipe w = None \<and> stderrPipe w = None \<and> (\<exists>pid. startResult w = Inr pid) then True
      else running p)"
  by (simp add: startCommand_def Let_def superviseStarted_running split: option.splits sum.splits)

lemma loadEnvFile_running: "running (fst (snd (loadEnvFile p f))) = running p"
  by (simp add: loadEnvFile_def split: env_file.splits prod.splits option.splits)

lemma loadEnvFile_events: "snd (snd (loadEnvFile p f)) = [OpenFile (EnvFile p)]"
  by (simp add: loadEnvFile_def split: env_file.splits prod.splits option.splits)

lemma loadEnvFile_Env:
  "Env p = Some env \<Longrightarrow>
     \<exists>env1. Env (fst (snd (loadEnvFile p f))) = Some env1 \<and> (\<forall>k v. env k = Some v \<longrightarrow> env1 k = Some v)"
proof (cases f)
  case (OpenFails err)
  assume "Env p = Some env"
  with OpenFails show ?thesis by (simp add: loadEnvFile_def)
next
  case (Opens tokens scanErr)
  assume e: "Env p = Some env"
  obtain menv r where l: "loadEnvLines (Some env) tokens = (menv, r)"
    by (cases "loadEnvLines (Some env) tokens") auto
  from loadEnvLines_keeps [OF l] obtain env1 where "menv = Some env1"
    and "\<forall>k v. env k = Some v \<longrightarrow> env1 k = Some v" by blast
  with Opens e l show ?thesis by (cases r) (simp_all add: loadEnvFile_def)
qed

lemma Run_keeps_Env:
  assumes "Env p = Some env"
  shows "\<exists>env1. Env (fst (snd (Run p w))) = Some env1 \<and> (\<forall>k v. env k = Some v \<longrightarrow> env1 k = Some v)"
proof -
  consider (idle) "running p \<or> File p = []"
    | (nofile) "\<not> running p" "File p \<noteq> []" "EnvFile p = []"
    | (withfile) "\<not> running p" "File p \<noteq> []" "EnvFile p \<noteq> []"
    by blast
  then show ?thesis
  proof cases
    case idle
    with assms show ?thesis by (auto simp: Run_def)
  next
    case nofile
    with assms show ?thesis by (simp add: Run_def initEnv_def startCommand_Env)
  next
    case withfile
    obtain r p2 evs where l: "loadEnvFile p (envFile w) = (r, p2, evs)"
      by (cases "loadEnvFile p (envFile w)") auto
    from loadEnvFile_Env [OF assms, of "envFile w"] l obtain env1 where
      e1: "Env p2 = Some env1" and keep: "\<forall>k v. env k = Some v \<longrightarrow> env1 k = Some v" by auto
    have "Env (fst (snd (Run p w))) = Env p2"
      using withfile assms l
      by (simp add: Run_def initEnv_def startCommand_Env split: outcome.splits option.splits)
    with e1 keep show ?thesis by simp
  qed
qed

lemma initEnv_fields:
  "EnvFile (initEnv p) = EnvFile p" "File (initEnv p) = File p" "running (initEnv p) = running p"
  by (simp_all add: initEnv_def)

lemma initEnv_Env: "Env (initEnv p) = Some (case Env p of None \<Rightarrow> Map.empty | Some env \<Rightarrow> env)"
  by (simp add: initEnv_def split: option.splits)

text \<open>What \<open>Run\<close> returns, and whether the process is running afterwards.\<close>

lemma Run_result:
  "fst (Run p w) =
     (if running p then Returned None
      else if File p = [] then Returned (Some NoFileSpecified)
      else
        (case envStep p w of
           Panicked pn \<Rightarrow> Panicked pn
         | Returned (Some err) \<Rightarrow> Returned (Some (FailedToLoadEnvFile err))
         | Returned None \<Rightarrow>
             (case stdoutPipe w of
                Some err \<Rightarrow> Returned (Some err)
              | None \<Rightarrow>
                  (case stderrPipe w of
                     Some err \<Rightarrow> Returned (Some err)
                   | None \<Rightarrow>
                       (case startResult w of
                          Inl err \<Rightarrow> Returned (Some err)
                        | Inr pid \<Rightarrow> Returned None)))))"
proof (cases "running p \<or> File p = [] \<or> EnvFile p = []")
  case True
  then show ?thesis
    by (auto simp: Run_def envStep_def Let_def initEnv_fields startCommand_result)
next
  case False
  obtain r p2 evs where l: "loadEnvFile (initEnv p) (envFile w) = (r, p2, evs)"
    by (cases "loadEnvFile (initEnv p) (envFile w)") auto
  show ?thesis
  proof (cases r)
    case (Panicked pn)
    with False l show ?thesis
      by (simp add: Run_def envStep_def Let_def initEnv_fields)
  next
    case (Returned e)
    with False l show ?thesis
      by (cases e) (simp_all add: Run_def envStep_def Let_def initEnv_fields startCommand_result)
  qed
qed

lemma Run_running:
  "running (fst (snd (Run p w))) =
     (if running p then True
      else if File p = [] then False
      else (envStep p w = Returned None \<and> stdoutPipe w = None \<and> stderrPipe w = None
            \<and> (\<exists>pid. startResult w = Inr pid)))"
proof (cases "running p \<or> File p = [] \<or> EnvFile p = []")
  case True
  then show ?thesis
    by (auto simp: Run_def envStep_def Let_def initEnv_fields startCommand_running)
next
  case False
  obtain r p2 evs where l: "loadEnvFile (initEnv p) (envFile w) = (r, p2, evs)"
    by (cases "loadEnvFile (initEnv p) (envFile w)") auto
  have r2: "running p2 = running p"
    using loadEnvFile_running [of "initEnv p" "envFile w"] l by (simp add: initEnv_fields)
  show ?thesis
  proof (cases r)
    case (Panicked pn)
    with False l r2 show ?thesis
      by (simp add: Run_def envStep_def Let_def initEnv_fields)
  next
    case (Returned e)
    with False l r2 show ?thesis
      by (cases e) (simp_all add: Run_def envStep_def Let_def initEnv_fields startCommand_running)
  qed
qed



text \<open>
  The pump steps and the readiness wait: a pump step makes only delegate writes, a
  predicate that never holds never fills \<open>readyChan\<close>, and the wait ends in one of the
  two branches of the \<open>select\<close>.
\<close>

lemma Write_events: "ReadyReceived \<notin> set (snd (snd (Write tsw chunk)))"
  by (simp add: Write_def Let_def split: option.splits)

lemma pumpStep_events:
  "pumpStep pred step (tsw, ready, evs) = (tsw1, ready1, evs1) \<Longrightarrow>
     (ReadyReceived \<in> set evs1) = (ReadyReceived \<in> set evs)"
proof (cases step)
  case (PumpWrite ln)
  assume a: "pumpStep pred step (tsw, ready, evs) = (tsw1, ready1, evs1)"
  obtain n t ev where w: "Write tsw (ln @ [CHR 0x0A]) = (n, t, ev)"
    by (cases "Write tsw (ln @ [CHR 0x0A])") auto
  have "ReadyReceived \<notin> set ev"
    using Write_events [of tsw "ln @ [CHR 0x0A]"] w by simp
  with a PumpWrite w show ?thesis by auto
next
  case PumpCheck
  assume "pumpStep pred step (tsw, ready, evs) = (tsw1, ready1, evs1)"
  with PumpCheck show ?thesis by (auto split: option.splits if_splits)
qed

lemma pumpStep_never_ready:
  "pumpStep (Some waitingFor) step (tsw, ready, evs) = (tsw1, ready1, evs1) \<Longrightarrow>
     \<forall>out. \<not> waitingFor out \<Longrightarrow> ready1 = ready"
  by (cases step) (auto split: prod.splits)

lemma pumpSteps_events:
  "pumpSteps pred steps (tsw, ready, evs) = (tsw1, ready1, evs1) \<Longrightarrow>
     (ReadyReceived \<in> set evs1) = (ReadyReceived \<in> set evs)"
proof (induction steps arbitrary: tsw ready evs)
  case Nil
  then show ?case by simp
next
  case (Cons step steps)
  obtain t r e where s: "pumpStep pred step (tsw, ready, evs) = (t, r, e)"
    by (cases "pumpStep pred step (tsw, ready, evs)") auto
  with Cons.prems have "pumpSteps pred steps (t, r, e) = (tsw1, ready1, evs1)" by simp
  then have "(ReadyReceived \<in> set evs1) = (ReadyReceived \<in> set e)" by (rule Cons.IH)
  with pumpStep_events [OF s] show ?case by simp
qed

lemma pumpSteps_never_ready:
  "pumpSteps (Some waitingFor) steps (tsw, ready, evs) = (tsw1, ready1, evs1) \<Longrightarrow>
     \<forall>out. \<not> waitingFor out \<Longrightarrow> ready1 = ready"
proof (induction steps arbitrary: tsw ready evs)
  case Nil
  then show ?case by simp
next
  case (Cons step steps)
  obtain t r e where s: "pumpStep (Some waitingFor) step (tsw, ready, evs) = (t, r, e)"
    by (cases "pumpStep (Some waitingFor) step (tsw, ready, evs)") auto
  with Cons.prems(1) have "pumpSteps (Some waitingFor) steps (t, r, e) = (tsw1, ready1, evs1)" by simp
  then have "ready1 = r" using Cons.prems(2) by (rule Cons.IH)
  with pumpStep_never_ready [OF s Cons.prems(2)] show ?case by simp
qed

lemma awaitReady_branch:
  "awaitReady pred steps (tsw, ready, evs) = (tsw1, evs1) \<Longrightarrow>
     ReadyReceived \<in> set evs1 \<or> ReadyTimeout readinessTimeout \<in> set evs1"
proof (induction steps arbitrary: tsw ready evs)
  case Nil
  then show ?case by (auto split: if_splits)
next
  case (Cons step steps)
  show ?case
  proof (cases ready)
    case True
    with Cons.prems show ?thesis by auto
  next
    case False
    obtain t r e where s: "pumpStep pred step (tsw, ready, evs) = (t, r, e)"
      by (cases "pumpStep pred step (tsw, ready, evs)") auto
    from False s Cons.prems(1) have "awaitReady pred steps (t, r, e) = (tsw1, evs1)" by simp
    then show ?thesis by (rule Cons.IH)
  qed
qed

lemma awaitReady_timeout:
  "awaitReady (Some waitingFor) steps (tsw, False, evs) = (tsw1, evs1) \<Longrightarrow>
     \<forall>out. \<not> waitingFor out \<Longrightarrow> ReadyReceived \<notin> set evs \<Longrightarrow>
     ReadyReceived \<notin> set evs1 \<and> ReadyTimeout readinessTimeout \<in> set evs1"
proof (induction steps arbitrary: tsw evs)
  case Nil
  then show ?case by auto
next
  case (Cons step steps)
  obtain t r e where s: "pumpStep (Some waitingFor) step (tsw, False, evs) = (t, r, e)"
    by (cases "pumpStep (Some waitingFor) step (tsw, False, evs)") auto
  from pumpStep_never_ready [OF s Cons.prems(2)] have r: "r = False" .
  from pumpStep_events [OF s] Cons.prems(3) have ne: "ReadyReceived \<notin> set e" by simp
  from s r Cons.prems(1) have "awaitReady (Some waitingFor) steps (t, False, e) = (tsw1, evs1)"
    by simp
  from Cons.IH [OF this Cons.prems(2) ne] show ?case .
qed


lemma superviseStarted_wait:
  assumes "WaitingFor p = Some waitingFor" and "ReadyReceived \<notin> set evs"
    and "superviseStarted p w evs = (r, p1, evs1)"
  shows "(ReadyReceived \<in> set evs1 \<or> ReadyTimeout readinessTimeout \<in> set evs1)
     \<and> ((\<forall>out. \<not> waitingFor out) \<longrightarrow>
          ReadyReceived \<notin> set evs1 \<and> ReadyTimeout readinessTimeout \<in> set evs1)"
proof (cases "safeWriter p")
  case None
  with assms show ?thesis by (auto simp: superviseStarted_def)
next
  case (Some tsw)
  obtain ta ready ea where a: "pumpSteps (Some waitingFor) (earlySteps w) (tsw, False, evs) = (ta, ready, ea)"
    by (cases "pumpSteps (Some waitingFor) (earlySteps w) (tsw, False, evs)") auto
  obtain n tb eb where b: "Write ta ''[runner] Waiting for the readiness.\<newline>'' = (n, tb, eb)"
    by (cases "Write ta ''[runner] Waiting for the readiness.\<newline>''") auto
  obtain tc ec where c: "awaitReady (Some waitingFor) (lateSteps w) (tb, ready, ea @ eb) = (tc, ec)"
    by (cases "awaitReady (Some waitingFor) (lateSteps w) (tb, ready, ea @ eb)") auto
  from assms(1,3) Some a b c have evs1: "evs1 = ec @ [BackgroundWait]"
    by (simp add: superviseStarted_def)
  have "ReadyReceived \<notin> set ea"
    using pumpSteps_events [OF a] assms(2) by simp
  moreover have "ReadyReceived \<notin> set eb"
    using Write_events [of ta "''[runner] Waiting for the readiness.\<newline>''"] b by simp
  ultimately have ne: "ReadyReceived \<notin> set (ea @ eb)" by simp
  have 1: "ReadyReceived \<in> set ec \<or> ReadyTimeout readinessTimeout \<in> set ec"
    using c by (rule awaitReady_branch)
  have 2: "ReadyReceived \<notin> set ec \<and> ReadyTimeout readinessTimeout \<in> set ec"
    if never: "\<forall>out. \<not> waitingFor out"
  proof -
    from pumpSteps_never_ready [OF a never] have "ready = False" by simp
    with c have "awaitReady (Some waitingFor) (lateSteps w) (tb, False, ea @ eb) = (tc, ec)" by simp
    from awaitReady_timeout [OF this never ne] show ?thesis .
  qed
  from 1 2 evs1 show ?thesis by auto
qed

lemma loadEnvFile_WaitingFor: "WaitingFor (fst (snd (loadEnvFile p f))) = WaitingFor p"
  by (simp add: loadEnvFile_def split: env_file.splits prod.splits option.splits)

lemma startCommand_started:
  assumes "stdoutPipe w = None" "stderrPipe w = None" "startResult w = Inr pid"
  shows "startCommand p w evs =
     superviseStarted
       (p\<lparr>safeWriter := Some (newThreadSafeWriter (LogStream p)),
          cmd := Some ((newCommand p w)\<lparr>cmd_Process := Some pid\<rparr>), running := True\<rparr>)
       w (evs @ [StartProcess [''go'', ''run'', File p]])"
  using assms by (simp add: startCommand_def Let_def newCommand_def)

lemma initEnv_WaitingFor: "WaitingFor (initEnv p) = WaitingFor p"
  by (simp add: initEnv_def)

lemma Run_started:
  assumes "\<not> running p" "File p \<noteq> []" "envStep p w = Returned None"
    "stdoutPipe w = None" "stderrPipe w = None" "startResult w = Inr pid"
  shows "\<exists>p1 evs. Run p w = superviseStarted p1 w evs \<and> WaitingFor p1 = WaitingFor p
     \<and> ReadyReceived \<notin> set evs \<and> StartProcess [''go'', ''run'', File p] \<in> set evs"
proof -
  let ?p0 = "initEnv p"
  obtain r p2 evs where l: "loadEnvFile ?p0 (envFile w) = (r, p2, evs)"
    by (cases "loadEnvFile ?p0 (envFile w)") auto
  have evs: "evs = [OpenFile (EnvFile p)]"
    using loadEnvFile_events [of ?p0 "envFile w"] l by (simp add: initEnv_fields)
  have wf: "WaitingFor p2 = WaitingFor p"
    using loadEnvFile_WaitingFor [of ?p0 "envFile w"] l by (simp add: initEnv_WaitingFor)
  have f: "File p2 = File p"
    using l by (auto simp: loadEnvFile_def initEnv_def split: env_file.splits prod.splits option.splits)
  define q where "q = (if EnvFile p = [] then ?p0 else p2)"
  define es where "es = (if EnvFile p = [] then [] else evs)"
  have r: "EnvFile p \<noteq> [] \<Longrightarrow> r = Returned None"
    using assms(3) l by (simp add: envStep_def)
  have run: "Run p w = startCommand q w es"
    using assms(1,2) l r by (auto simp: Run_def Let_def initEnv_fields q_def es_def)
  have qf: "File q = File p" and qw: "WaitingFor q = WaitingFor p"
    using f wf by (simp_all add: q_def initEnv_fields initEnv_WaitingFor)
  let ?p1 = "q\<lparr>safeWriter := Some (newThreadSafeWriter (LogStream q)),
      cmd := Some ((newCommand q w)\<lparr>cmd_Process := Some pid\<rparr>), running := True\<rparr>"
  let ?es1 = "es @ [StartProcess [''go'', ''run'', File p]]"
  have 1: "Run p w = superviseStarted ?p1 w ?es1"
    using run startCommand_started [OF assms(4-6), of q es] qf by simp
  have 2: "WaitingFor ?p1 = WaitingFor p" using qw by simp
  have 3: "ReadyReceived \<notin> set ?es1" using evs by (simp add: es_def)
  have 4: "StartProcess [''go'', ''run'', File p] \<in> set ?es1" by simp
  from 1 2 3 4 show ?thesis by blast
qed

lemma Stop_Env: "Env (fst (Stop p pgid)) = Env p"
  by (simp add: Stop_def split: option.splits)

lemma Stop_Stop: "Stop (fst (Stop p pgid)) pgid1 = (fst (Stop p pgid), [])"
  by (simp add: Stop_def split: option.splits)

lemma loadEnvLines_no_panic:
  "loadEnvLines (Some env) ts = (menv, None) \<Longrightarrow> \<forall>t\<in>set ts. \<exists>r. parseLine t = Inr r"
proof (induction ts arbitrary: env)
  case Nil
  then show ?case by simp
next
  case (Cons t ts)
  show ?case
  proof (cases "loadEnvLine (Some env) t")
    case (Inl pn)
    with Cons.prems show ?thesis by simp
  next
    case (Inr menv1)
    then obtain env1 where e1: "menv1 = Some env1" and r: "\<exists>r. parseLine t = Inr r"
      by (auto simp: loadEnvLine_def setIfAbsent_def split: sum.splits option.splits if_splits)
    from Inr e1 Cons.prems have "loadEnvLines (Some env1) ts = (menv, None)" by simp
    from Cons.IH [OF this] r show ?thesis by simp
  qed
qed

lemma fileEntries_spec:
  "\<forall>t\<in>set ts. \<exists>r. parseLine t = Inr r \<Longrightarrow>
     fileEntries ts = List.map_filter spec_parse_line (map TrimSpace ts)"
proof (induction ts)
  case Nil
  show ?case by (simp add: fileEntries_def List.map_filter_simps)
next
  case (Cons t ts)
  then obtain r where r: "parseLine t = Inr r" by auto
  then have s: "spec_parse_line (TrimSpace t) = r" using parseLine_spec [of t r] by simp
  from Cons have "fileEntries ts = List.map_filter spec_parse_line (map TrimSpace ts)" by simp
  with r s show ?case
    by (cases r) (simp_all add: fileEntries_Cons List.map_filter_simps)
qed

lemma loadEnvFile_Opens:
  "loadEnvFile p (Opens tokens scanErr) =
     ((case snd (loadEnvLines (Env p) tokens) of None \<Rightarrow> Returned scanErr | Some pn \<Rightarrow> Panicked pn),
      p\<lparr>Env := fst (loadEnvLines (Env p) tokens)\<rparr>, [OpenFile (EnvFile p)])"
  by (simp add: loadEnvFile_def split: prod.splits option.splits)

lemma Run_Env:
  "\<not> running p \<Longrightarrow> File p \<noteq> [] \<Longrightarrow>
     Env (fst (snd (Run p w))) =
       (if EnvFile p = [] then Env (initEnv p)
        else Env (fst (snd (loadEnvFile (initEnv p) (envFile w)))))"
proof (cases "EnvFile p = []")
  case True
  assume "\<not> running p" "File p \<noteq> []"
  with True show ?thesis by (simp add: Run_def Let_def initEnv_fields startCommand_Env)
next
  case False
  assume a: "\<not> running p" "File p \<noteq> []"
  obtain r p2 evs where l: "loadEnvFile (initEnv p) (envFile w) = (r, p2, evs)"
    by (cases "loadEnvFile (initEnv p) (envFile w)") auto
  with False a show ?thesis
    by (simp add: Run_def Let_def initEnv_fields startCommand_Env split: outcome.splits option.splits)
qed

section \<open>The claims about the capture buffer\<close>

text \<open>
  C1 (as amended). \<open>Write\<close> extends the captured text by exactly the chunk, for every
  chunk and every prior state. A non-empty chunk becomes exactly one new last element of
  \<open>lines\<close>; the empty chunk leaves \<open>lines\<close> as it was (the guard \<open>content != ""\<close>).
  Hence after any sequence of appends following a reset, or following the creation of
  the writer, the captured text is the concatenation of the chunks in append order, and
  \<open>lines\<close> holds the non-empty chunks in append order.
\<close>

theorem Write_extends_capture:
  "getOutput (fst (snd (Write tsw p))) = getOutput tsw @ p
   \<and> getLines (fst (snd (Write tsw p))) = (if p = [] then getLines tsw else getLines tsw @ [p])
   \<and> getOutput (fst (Writes (reset tsw) ps)) = concat ps
   \<and> getOutput (fst (Writes (newThreadSafeWriter d) ps)) = concat ps
   \<and> getLines (fst (Writes (reset tsw) ps)) = filter (\<lambda>p. p \<noteq> []) ps
   \<and> getLines (fst (Writes (newThreadSafeWriter d) ps)) = filter (\<lambda>p. p \<noteq> []) ps"
proof -
  have 1: "getOutput (fst (snd (Write tsw p))) = getOutput tsw @ p"
    by (simp add: getOutput_def Write_buffer)
  have 2: "getLines (fst (snd (Write tsw p))) = (if p = [] then getLines tsw else getLines tsw @ [p])"
    by (simp add: getLines_def Write_lines)
  have 3: "getOutput (fst (Writes (reset tsw) ps)) = concat ps"
    by (simp add: getOutput_def Writes_buffer reset_def)
  have 4: "getOutput (fst (Writes (newThreadSafeWriter d) ps)) = concat ps"
    by (simp add: getOutput_def Writes_buffer newThreadSafeWriter_def)
  have 5: "getLines (fst (Writes (reset tsw) ps)) = filter (\<lambda>p. p \<noteq> []) ps"
    by (simp add: getLines_def Writes_lines reset_def)
  have 6: "getLines (fst (Writes (newThreadSafeWriter d) ps)) = filter (\<lambda>p. p \<noteq> []) ps"
    by (simp add: getLines_def Writes_lines newThreadSafeWriter_def)
  from 1 2 3 4 5 6 show ?thesis by blast
qed

text \<open>
  The theorem at a concrete run: two lines appended after a reset of a writer that
  already held text.
\<close>

theorem Write_extends_capture_witness:
  "getOutput (fst (Writes (reset \<lparr>buffer = ''old'', lines = [''old''], delegate = Some 1\<rparr>)
      [''a'', ''bc''])) = ''abc''
   \<and> getLines (fst (Writes (reset \<lparr>buffer = ''old'', lines = [''old''], delegate = Some 1\<rparr>)
      [''a'', ''bc''])) = [''a'', ''bc'']"
  using Write_extends_capture [of "\<lparr>buffer = ''old'', lines = [''old''], delegate = Some 1\<rparr>"
    "[]" "[''a'', ''bc'']" None]
  by simp

text \<open>
  C1 as written fails for the empty chunk: appending it to a fresh writer does not add
  an element to \<open>lines\<close>.
\<close>

theorem Write_empty_chunk_counterexample:
  "getLines (fst (snd (Write (newThreadSafeWriter None) [])))
     \<noteq> getLines (newThreadSafeWriter None) @ [[]]"
  by (simp add: Write_def getLines_def newThreadSafeWriter_def)

text \<open>
  C7. Whatever was appended before, \<open>reset\<close> followed by \<open>getOutput\<close> gives the empty
  string and \<open>getLines\<close> gives the empty sequence; the delegate of the writer is the one
  it had, and \<open>reset\<close> makes no call on it. The same holds through the process:
  \<open>ResetOutput\<close> followed by \<open>GetOutput\<close> or \<open>GetLines\<close> gives the empty result and
  leaves \<open>LogStream\<close> and the delegate of the writer as they were.
\<close>

theorem reset_clears_capture:
  "getOutput (reset tsw) = []
   \<and> getLines (reset tsw) = []
   \<and> delegate (reset tsw) = delegate tsw
   \<and> getOutput (reset (fst (Writes (newThreadSafeWriter d) ps))) = []
   \<and> getLines (reset (fst (Writes (newThreadSafeWriter d) ps))) = []
   \<and> delegate (reset (fst (Writes (newThreadSafeWriter d) ps))) = d
   \<and> GetOutput (ResetOutput p) = []
   \<and> GetLines (ResetOutput p) = []
   \<and> LogStream (ResetOutput p) = LogStream p
   \<and> map_option delegate (safeWriter (ResetOutput p)) = map_option delegate (safeWriter p)"
proof -
  have w: "getOutput (reset tsw) = [] \<and> getLines (reset tsw) = [] \<and> delegate (reset tsw) = delegate tsw"
    for tsw
    by (simp add: getOutput_def getLines_def reset_def)
  have d: "delegate (fst (Writes (newThreadSafeWriter d) ps)) = d"
    by (simp add: Writes_delegate newThreadSafeWriter_def)
  have p: "GetOutput (ResetOutput p) = [] \<and> GetLines (ResetOutput p) = []
      \<and> LogStream (ResetOutput p) = LogStream p
      \<and> map_option delegate (safeWriter (ResetOutput p)) = map_option delegate (safeWriter p)"
    by (cases "safeWriter p") (simp_all add: GetOutput_def GetLines_def ResetOutput_def w)
  from w [of tsw] w [of "fst (Writes (newThreadSafeWriter d) ps)"] d p show ?thesis by simp
qed

section \<open>The claims about the environment file\<close>

text \<open>
  C2. Whatever the environment file holds and however the call ends, every key of the
  explicit mapping has its explicit value after the merge: \<open>loadEnvFile\<close> sets an entry
  only for a key that is not in the map, and so does \<open>Run\<close> as a whole.
\<close>

theorem explicit_Env_takes_precedence:
  assumes "lookupEnv p k = Some v"
  shows "lookupEnv (fst (snd (loadEnvFile p f))) k = Some v
     \<and> lookupEnv (fst (snd (Run p w))) k = Some v"
proof -
  from assms obtain env where e: "Env p = Some env" and k: "env k = Some v"
    by (auto simp: lookupEnv_def split: option.splits)
  from loadEnvFile_Env [OF e, of f] k
  have 1: "lookupEnv (fst (snd (loadEnvFile p f))) k = Some v"
    by (auto simp: lookupEnv_def)
  from Run_keeps_Env [OF e, of w] k
  have 2: "lookupEnv (fst (snd (Run p w))) k = Some v"
    by (auto simp: lookupEnv_def)
  from 1 2 show ?thesis by simp
qed

text \<open>
  The explicit mapping \<open>{PORT: "1010"}\<close> with a file that holds \<open>PORT=9999\<close> and
  \<open>HOST = localhost\<close>: after \<open>Run\<close> the value of \<open>PORT\<close> is \<open>"1010"\<close>, and \<open>HOST\<close> comes
  from the file.
\<close>

theorem explicit_Env_takes_precedence_witness:
  "lookupEnv testProcess ''PORT'' = Some ''1010''
   \<and> lookupEnv (fst (snd (Run testProcess testWorld))) ''PORT'' = Some ''1010''
   \<and> lookupEnv (fst (snd (Run testProcess testWorld))) ''HOST'' = Some ''localhost''"
proof -
  have host: "lookupEnv (fst (snd (Run testProcess testWorld))) ''HOST'' = Some ''localhost''"
    by code_simp
  have port: "lookupEnv testProcess ''PORT'' = Some ''1010''"
    by (simp add: lookupEnv_def testProcess_def)
  from explicit_Env_takes_precedence [OF port, of "envFile testWorld" testWorld] host port
  show ?thesis by simp
qed

text \<open>
  C6 (as amended). Whenever \<open>loadEnvFile\<close> returns, the map it leaves is exactly the one
  the specification's syntax gives for the scanned lines after each has been trimmed
  of surrounding white space, merged under the entries that the map already had; the
  error it returns is the scanner's. So a line that is empty or starts with \<open>#\<close> once
  trimmed is ignored, the other lines are split on their first \<open>=\<close>, key and value are
  trimmed, a value of two bytes or more between matching quotes loses the quotes, and
  the first line of a key counts.
\<close>

theorem loadEnvFile_parses_file:
  assumes "Env p = Some env"
    and "loadEnvFile p (Opens tokens scanErr) = (Returned r, p1, evs)"
  shows "Env p1 = Some (spec_parse (map TrimSpace tokens) ++ env) \<and> r = scanErr"
proof -
  obtain menv pn where l: "loadEnvLines (Some env) tokens = (menv, pn)"
    by (cases "loadEnvLines (Some env) tokens") auto
  from assms l have pn: "pn = None" and r: "r = scanErr" and p1: "Env p1 = menv"
    by (auto simp: loadEnvFile_Opens split: option.splits)
  from l pn have l1: "loadEnvLines (Some env) tokens = (menv, None)" by simp
  then have "menv = Some (map_of (fileEntries tokens) ++ env)"
    by (rule loadEnvLines_entries)
  moreover have "fileEntries tokens = List.map_filter spec_parse_line (map TrimSpace tokens)"
    using loadEnvLines_no_panic [OF l1] by (rule fileEntries_spec)
  ultimately show ?thesis using p1 r by (simp add: spec_parse_def)
qed

text \<open>
  A file with a comment, an empty line, a key the explicit mapping has, a quoted value
  that contains \<open>=\<close>, a value in single quotes, a line without \<open>=\<close>, a repeated key
  and an empty value.
\<close>

theorem loadEnvFile_parses_file_witness:
  "fst (loadEnvFile testProcess testFile) = Returned None
   \<and> lookupEnv (fst (snd (loadEnvFile testProcess testFile))) ''PORT'' = Some ''1010''
   \<and> lookupEnv (fst (snd (loadEnvFile testProcess testFile))) ''HOST'' = Some ''local=host''
   \<and> lookupEnv (fst (snd (loadEnvFile testProcess testFile))) ''NAME'' = Some ''x''
   \<and> lookupEnv (fst (snd (loadEnvFile testProcess testFile))) ''EMPTY'' = Some []
   \<and> lookupEnv (fst (snd (loadEnvFile testProcess testFile))) ''# note'' = None"
proof -
  let ?tokens = "[''# note = 1'', [], ''PORT=9999'', '' HOST = '' @ dquote @ ''local=host'' @ dquote @ '' '',
      ''NAME='' @ squote @ ''x'' @ squote, ''no separator'', ''HOST=other'', ''EMPTY='']"
  have f: "testFile = Opens ?tokens None" by (simp add: testFile_def)
  obtain r p1 evs where l: "loadEnvFile testProcess (Opens ?tokens None) = (r, p1, evs)"
    by (cases "loadEnvFile testProcess (Opens ?tokens None)") auto
  have "fst (loadEnvFile testProcess (Opens ?tokens None)) = Returned None" by code_simp
  with l have r: "r = Returned None" by simp
  have e: "Env testProcess = Some [''PORT'' \<mapsto> ''1010'']" by (simp add: testProcess_def)
  let ?m = "spec_parse (map TrimSpace ?tokens) ++ [''PORT'' \<mapsto> ''1010'']"
  have s: "?m ''PORT'' = Some ''1010''" "?m ''HOST'' = Some ''local=host''" "?m ''NAME'' = Some ''x''"
    "?m ''EMPTY'' = Some []" "?m ''# note'' = None"
    by code_simp+
  from loadEnvFile_parses_file [OF e l [unfolded r]] have "Env p1 = Some ?m" by simp
  with l r s f show ?thesis by (simp add: lookupEnv_def)
qed

text \<open>
  C6 as written fails on two inputs. For the line \<open>KEY=\<close> followed by one double quote
  the specification's syntax gives that quote as the value, since one byte is not
  wrapped in quotes, while \<open>loadEnvFile\<close> panics. For a
  line with white space before \<open>#\<close>, which does not start with \<open>#\<close>, the specification's
  syntax gives an entry, while \<open>loadEnvFile\<close> ignores the line.
\<close>

theorem loadEnvFile_spec_counterexample:
  "spec_parse [''KEY='' @ dquote] ''KEY'' = Some dquote
   \<and> fst (loadEnvFile (testProcess\<lparr>Env := Some Map.empty\<rparr>) (Opens [''KEY='' @ dquote] None))
       = Panicked (SliceBoundsOutOfRange 1 0)
   \<and> spec_parse [''  #A=1''] ''#A'' = Some ''1''
   \<and> fst (loadEnvFile (testProcess\<lparr>Env := Some Map.empty\<rparr>) (Opens [''  #A=1''] None)) = Returned None
   \<and> lookupEnv (fst (snd (loadEnvFile (testProcess\<lparr>Env := Some Map.empty\<rparr>) (Opens [''  #A=1''] None)))) ''#A''
       = None"
  by code_simp

text \<open>
  C9 says that \<open>loadEnvFile\<close> never panics, whatever the line, and in particular not on
  a value that is one quote character. The code does panic there: the file whose only
  line is \<open>KEY=\<close> followed by one double quote is scanned to that one line, the loop
  body slices the one-byte value as \<open>value[1:0]\<close> and panics, and so \<open>Run\<close> panics; a
  value that is one single quote does the same.
\<close>

theorem Run_panics_on_lone_quote:
  "ScanLines (''KEY='' @ dquote @ [CHR 0x0A]) = [''KEY='' @ dquote]
   \<and> parseLine (''KEY='' @ dquote) = Inl (SliceBoundsOutOfRange 1 0)
   \<and> fst (Run testProcess (testWorld\<lparr>envFile := loneQuoteFile\<rparr>)) = Panicked (SliceBoundsOutOfRange 1 0)
   \<and> fst (Run testProcess (testWorld\<lparr>envFile := Opens [''KEY = '' @ squote @ '' ''] None\<rparr>))
       = Panicked (SliceBoundsOutOfRange 1 0)"
  by code_simp

text \<open>
  C10. A call of \<open>Run\<close> that gets past the check of \<open>File\<close> leaves \<open>Env\<close> non-nil: without
  an environment file, or with one that cannot be opened, it is the map it was, or the
  empty map if it was nil; with an environment file that opens, and unless the call
  panics, it is the map it was extended by the entries of the file for the keys it did
  not have. Every entry that \<open>Env\<close> has after the call is still there, with the same
  value, after a \<open>Stop\<close> and a later \<open>Run\<close>, whatever the environment file holds by then.
\<close>

theorem Run_merges_into_public_Env:
  assumes "\<not> running p" and "File p \<noteq> []"
  shows "Env (fst (snd (Run p w))) \<noteq> None
     \<and> (EnvFile p = [] \<longrightarrow>
          Env (fst (snd (Run p w))) = Some (case Env p of None \<Rightarrow> Map.empty | Some env \<Rightarrow> env))
     \<and> (EnvFile p \<noteq> [] \<and> envFile w = OpenFails err \<longrightarrow>
          Env (fst (snd (Run p w))) = Some (case Env p of None \<Rightarrow> Map.empty | Some env \<Rightarrow> env))
     \<and> (EnvFile p \<noteq> [] \<and> envFile w = Opens tokens scanErr \<and> (\<forall>pn. fst (Run p w) \<noteq> Panicked pn) \<longrightarrow>
          Env (fst (snd (Run p w))) =
            Some (map_of (fileEntries tokens) ++ (case Env p of None \<Rightarrow> Map.empty | Some env \<Rightarrow> env)))
     \<and> (lookupEnv (fst (snd (Run p w))) k = Some v \<longrightarrow>
          lookupEnv (fst (snd (Run (fst (Stop (fst (snd (Run p w))) pgid)) w1))) k = Some v)"
proof -
  let ?env0 = "case Env p of None \<Rightarrow> Map.empty | Some env \<Rightarrow> env"
  have i: "Env (initEnv p) = Some ?env0" by (rule initEnv_Env)
  have 2: "EnvFile p = [] \<longrightarrow> Env (fst (snd (Run p w))) = Some ?env0"
    using assms i by (simp add: Run_Env)
  have 3: "EnvFile p \<noteq> [] \<and> envFile w = OpenFails err \<longrightarrow> Env (fst (snd (Run p w))) = Some ?env0"
    using assms i by (simp add: Run_Env loadEnvFile_def)
  have 4: "EnvFile p \<noteq> [] \<and> envFile w = Opens tokens scanErr \<and> (\<forall>pn. fst (Run p w) \<noteq> Panicked pn) \<longrightarrow>
          Env (fst (snd (Run p w))) = Some (map_of (fileEntries tokens) ++ ?env0)"
  proof (intro impI, elim conjE)
    assume ef: "EnvFile p \<noteq> []" and o: "envFile w = Opens tokens scanErr"
      and np: "\<forall>pn. fst (Run p w) \<noteq> Panicked pn"
    obtain menv pn where l: "loadEnvLines (Some ?env0) tokens = (menv, pn)"
      by (cases "loadEnvLines (Some ?env0) tokens") auto
    have "pn = None"
    proof (cases pn)
      case None
      then show ?thesis .
    next
      case (Some x)
      with assms ef o l i have "fst (Run p w) = Panicked x"
        by (simp add: Run_result envStep_def loadEnvFile_Opens)
      with np show ?thesis by simp
    qed
    with l have "menv = Some (map_of (fileEntries tokens) ++ ?env0)"
      by (simp add: loadEnvLines_entries)
    moreover have "Env (fst (snd (Run p w))) = menv"
      using assms ef o l i by (simp add: Run_Env loadEnvFile_Opens)
    ultimately show "Env (fst (snd (Run p w))) = Some (map_of (fileEntries tokens) ++ ?env0)"
      by simp
  qed
  have 1: "Env (fst (snd (Run p w))) \<noteq> None"
    using Run_keeps_Env [of "initEnv p" ?env0 w] i assms
    by (auto simp: Run_def Let_def initEnv_def split: option.splits)
  have 5: "lookupEnv (fst (snd (Run p w))) k = Some v \<longrightarrow>
          lookupEnv (fst (snd (Run (fst (Stop (fst (snd (Run p w))) pgid)) w1))) k = Some v"
  proof
    assume "lookupEnv (fst (snd (Run p w))) k = Some v"
    then obtain env1 where e: "Env (fst (snd (Run p w))) = Some env1" and k: "env1 k = Some v"
      by (auto simp: lookupEnv_def split: option.splits)
    from e have "Env (fst (Stop (fst (snd (Run p w))) pgid)) = Some env1"
      by (simp add: Stop_Env)
    from Run_keeps_Env [OF this, of w1] k
    show "lookupEnv (fst (snd (Run (fst (Stop (fst (snd (Run p w))) pgid)) w1))) k = Some v"
      by (auto simp: lookupEnv_def)
  qed
  from 1 2 3 4 5 show ?thesis by blast
qed

text \<open>
  The test configuration with a nil \<open>Env\<close>: after \<open>Run\<close> the public map holds the two
  entries of the file, and a later \<open>Run\<close> with a file that now says \<open>PORT=7777\<close> still
  has \<open>PORT\<close> at \<open>"9999"\<close>.
\<close>

theorem Run_merges_into_public_Env_witness:
  "\<not> running (testProcess\<lparr>Env := None\<rparr>) \<and> File (testProcess\<lparr>Env := None\<rparr>) \<noteq> []
   \<and> lookupEnv (fst (snd (Run (testProcess\<lparr>Env := None\<rparr>) testWorld))) ''PORT'' = Some ''9999''
   \<and> lookupEnv (fst (snd (Run (testProcess\<lparr>Env := None\<rparr>) testWorld))) ''HOST'' = Some ''localhost''
   \<and> lookupEnv (fst (snd (Run (fst (Stop (fst (snd (Run (testProcess\<lparr>Env := None\<rparr>) testWorld))) (Some 4242)))
        (testWorld\<lparr>envFile := Opens [''PORT=7777''] None\<rparr>)))) ''PORT'' = Some ''9999''"
proof -
  let ?p = "testProcess\<lparr>Env := None\<rparr>"
  let ?tokens = "ScanLines ''PORT=9999\<newline>HOST = localhost\<newline>''"
  let ?w1 = "testWorld\<lparr>envFile := Opens [''PORT=7777''] None\<rparr>"
  have a: "\<not> running ?p" "File ?p \<noteq> []" "EnvFile ?p \<noteq> []" "Env ?p = None"
    by (simp_all add: testProcess_def)
  have b: "envFile testWorld = Opens ?tokens None" by (simp add: testWorld_def)
  have "fst (Run ?p testWorld) = Returned None" by code_simp
  then have c: "\<forall>pn. fst (Run ?p testWorld) \<noteq> Panicked pn" by simp
  have d: "(map_of (fileEntries ?tokens) ++ Map.empty) ''PORT'' = Some ''9999''"
    "(map_of (fileEntries ?tokens) ++ Map.empty) ''HOST'' = Some ''localhost''"
    by code_simp+
  note t = Run_merges_into_public_Env [OF a(1,2), of testWorld _ ?tokens None "''PORT''" "''9999''" "Some 4242" ?w1]
  from t a b c have "Env (fst (snd (Run ?p testWorld))) = Some (map_of (fileEntries ?tokens) ++ Map.empty)"
    by simp
  with d have e: "lookupEnv (fst (snd (Run ?p testWorld))) ''PORT'' = Some ''9999''"
    "lookupEnv (fst (snd (Run ?p testWorld))) ''HOST'' = Some ''localhost''"
    by (simp_all add: lookupEnv_def)
  with t have "lookupEnv (fst (snd (Run (fst (Stop (fst (snd (Run ?p testWorld))) (Some 4242))) ?w1))) ''PORT''
      = Some ''9999''"
    by blast
  with a e show ?thesis by simp
qed

section \<open>The claims about the life cycle\<close>




text \<open>
  C4. In a call of \<open>Run\<close> that starts the process with a readiness predicate configured,
  \<open>Run\<close> returns nil and the process is marked running, whichever branch of the
  \<open>select\<close> ends the wait. When the readiness signal is not received the wait ends in
  the timeout branch, whose timer is 30 seconds; this is the case in particular for a
  predicate that never holds.
\<close>

theorem readiness_timeout_returns_nil:
  assumes "\<not> running p" and "File p \<noteq> []" and "envStep p w = Returned None"
    and "stdoutPipe w = None" and "stderrPipe w = None" and "startResult w = Inr pid"
    and "WaitingFor p = Some waitingFor"
  shows "fst (Run p w) = Returned None
     \<and> running (fst (snd (Run p w)))
     \<and> (ReadyReceived \<in> set (snd (snd (Run p w))) \<or> ReadyTimeout 30 \<in> set (snd (snd (Run p w))))
     \<and> ((\<forall>out. \<not> waitingFor out) \<longrightarrow>
          ReadyReceived \<notin> set (snd (snd (Run p w))) \<and> ReadyTimeout 30 \<in> set (snd (snd (Run p w))))"
proof -
  have 1: "fst (Run p w) = Returned None"
    using assms by (simp add: Run_result)
  have 2: "running (fst (snd (Run p w)))"
    using assms by (simp add: Run_running)
  from Run_started [OF assms(1-6)] obtain p1 evs where
    run: "Run p w = superviseStarted p1 w evs" and wf: "WaitingFor p1 = Some waitingFor"
    and ne: "ReadyReceived \<notin> set evs"
    using assms(7) by auto
  obtain r p2 evs2 where s: "superviseStarted p1 w evs = (r, p2, evs2)"
    by (cases "superviseStarted p1 w evs") auto
  from superviseStarted_wait [OF wf ne s] run s
  have 3: "(ReadyReceived \<in> set (snd (snd (Run p w))) \<or> ReadyTimeout 30 \<in> set (snd (snd (Run p w))))
     \<and> ((\<forall>out. \<not> waitingFor out) \<longrightarrow>
          ReadyReceived \<notin> set (snd (snd (Run p w))) \<and> ReadyTimeout 30 \<in> set (snd (snd (Run p w))))"
    by (simp add: readinessTimeout_def)
  from 1 2 3 show ?thesis by blast
qed

text \<open>
  The test configuration with a predicate that never holds: the readiness signal is
  never received, the 30 second timer ends the wait, and \<open>Run\<close> returns nil.
\<close>

theorem readiness_timeout_returns_nil_witness:
  "fst (Run (testProcess\<lparr>WaitingFor := Some (\<lambda>out. False)\<rparr>) testWorld) = Returned None
   \<and> ReadyTimeout 30 \<in> set (snd (snd (Run (testProcess\<lparr>WaitingFor := Some (\<lambda>out. False)\<rparr>) testWorld)))
   \<and> ReadyReceived \<notin> set (snd (snd (Run (testProcess\<lparr>WaitingFor := Some (\<lambda>out. False)\<rparr>) testWorld)))"
proof -
  let ?p = "testProcess\<lparr>WaitingFor := Some (\<lambda>out. False)\<rparr>"
  have e: "envStep ?p testWorld = Returned None" by code_simp
  have a: "\<not> running ?p" "File ?p \<noteq> []" "WaitingFor ?p = Some (\<lambda>out. False)"
    by (simp_all add: testProcess_def)
  have b: "stdoutPipe testWorld = None" "stderrPipe testWorld = None" "startResult testWorld = Inr 4242"
    by (simp_all add: testWorld_def)
  from readiness_timeout_returns_nil [OF a(1,2) e b a(3)]
  show ?thesis by simp
qed

text \<open>
  C5. \<open>Run\<close> on a running process returns nil, leaves the process as it is and does
  nothing (no event, so no second start); in particular a second \<open>Run\<close> after one that
  returned nil is such a call. \<open>Stop\<close> on a process that is not running, or that has no
  command, leaves the process as it is and kills nothing; in particular a second
  \<open>Stop\<close> does.
\<close>

theorem Run_and_Stop_idempotent:
  "(running p \<longrightarrow> Run p w = (Returned None, p, []))
   \<and> (\<not> running p \<or> cmd p = None \<longrightarrow> Stop p pgid = (p, []))
   \<and> Stop (fst (Stop p pgid)) pgid1 = (fst (Stop p pgid), [])
   \<and> (File p \<noteq> [] \<and> fst (Run p w) = Returned None \<longrightarrow>
        Run (fst (snd (Run p w))) w1 = (Returned None, fst (snd (Run p w)), []))"
proof -
  have 1: "running p \<longrightarrow> Run p w = (Returned None, p, [])"
    by (simp add: Run_def)
  have 2: "\<not> running p \<or> cmd p = None \<longrightarrow> Stop p pgid = (p, [])"
    by (auto simp: Stop_def)
  have 3: "Stop (fst (Stop p pgid)) pgid1 = (fst (Stop p pgid), [])"
    by (rule Stop_Stop)
  have "File p \<noteq> [] \<and> fst (Run p w) = Returned None \<longrightarrow> running (fst (snd (Run p w)))"
    unfolding Run_result Run_running
    by (auto split: outcome.splits option.splits sum.splits if_splits)
  then have 4: "File p \<noteq> [] \<and> fst (Run p w) = Returned None \<longrightarrow>
        Run (fst (snd (Run p w))) w1 = (Returned None, fst (snd (Run p w)), [])"
    by (simp add: Run_def)
  from 1 2 3 4 show ?thesis by blast
qed

text \<open>
  The test configuration: the second \<open>Run\<close> makes no event, and \<open>Stop\<close> before any
  \<open>Run\<close> changes nothing.
\<close>

theorem Run_and_Stop_idempotent_witness:
  "snd (snd (Run (fst (snd (Run testProcess testWorld))) testWorld)) = []
   \<and> Stop testProcess (Some 4242) = (testProcess, [])"
proof -
  have a: "File testProcess \<noteq> []" "\<not> running testProcess" by (simp_all add: testProcess_def)
  have b: "fst (Run testProcess testWorld) = Returned None" by code_simp
  from Run_and_Stop_idempotent [of testProcess testWorld "Some 4242" None testWorld] a b
  show ?thesis by simp
qed

text \<open>
  C8. While \<open>safeWriter\<close> is nil, \<open>GetOutput\<close> returns the empty string, \<open>GetLines\<close>
  returns the sequence of length 0, \<open>ContainsOutput\<close> and \<open>WaitForOutput\<close> return false
  for every argument, and \<open>ResetOutput\<close> leaves the process unchanged.
\<close>

theorem accessors_without_writer:
  "safeWriter p = None \<Longrightarrow>
     GetOutput p = [] \<and> GetLines p = [] \<and> \<not> ContainsOutput p text
     \<and> \<not> WaitForOutput p text timeout polls \<and> ResetOutput p = p"
  by (simp add: GetOutput_def GetLines_def ContainsOutput_def WaitForOutput_def ResetOutput_def)

text \<open>The test configuration before its first \<open>Run\<close>.\<close>

theorem accessors_without_writer_witness:
  "GetOutput testProcess = [] \<and> GetLines testProcess = []
   \<and> \<not> ContainsOutput testProcess ''Server started''
   \<and> \<not> WaitForOutput testProcess ''Server started'' 5000000000 [[''Server started\<newline>'']]
   \<and> ResetOutput testProcess = testProcess"
proof -
  have "safeWriter testProcess = None" by (simp add: testProcess_def)
  from accessors_without_writer [OF this] show ?thesis by blast
qed

end
